theory Spec2Isabelle
  imports Main
begin

section \<open>Data model of chat.go\<close>

text \<open>
  The \<open>Event\<close> struct (chat.go, lines 26-31). The timestamp is an \<open>int\<close> holding
  \<open>time.Now().Unix()\<close>; the clock is an input of the model.
\<close>

record Event =
  EvtType :: string
  User :: string
  Timestamp :: int
  Text :: string

definition NewEvent :: "int \<Rightarrow> string \<Rightarrow> string \<Rightarrow> string \<Rightarrow> Event" where
  "NewEvent now evtType user msg =
     \<lparr>EvtType = evtType, User = user, Timestamp = now, Text = msg\<rparr>"

text \<open>
  A Go channel is a heap object compared by reference. A reference is a number; the
  object holds the capacity given to \<open>make\<close>, the buffered events (oldest first), and
  the events already received from it (oldest first), which is the history the claims
  about "events received on the handle" speak of. No channel of chat.go is ever closed.
\<close>

type_synonym chan = nat

record channel =
  cap :: nat
  buf :: "Event list"
  taken :: "Event list"

type_synonym store = "chan \<Rightarrow> channel option"

definition make_chan :: "nat \<Rightarrow> channel" where
  "make_chan n = \<lparr>cap = n, buf = [], taken = []\<rparr>"

text \<open>The \<open>Subscription\<close> struct (lines 34-38).\<close>

record Subscription =
  Archive :: "Event list"
  New :: chan

section \<open>The room actor: function Chatroom (lines 84-135)\<close>

text \<open>
  The locals of the goroutine (\<open>archive\<close>, \<open>subscribers\<close>), the store of the channels it
  created with the counter that stands for allocation, and its program point:
  \<open>pending = None\<close> when it waits at the \<open>select\<close> of line 91, and
  \<open>pending = Some (event, cs)\<close> when it is suspended in the send of line 115 with the
  subscribers \<open>cs\<close> still to be served (the first of them has a full buffer).
\<close>

record room =
  archive :: "Event list"
  subscribers :: "chan list"
  chans :: store
  next_chan :: nat
  pending :: "(Event \<times> chan list) option"

definition Chatroom_init :: room where
  "Chatroom_init =
     \<lparr>archive = [], subscribers = [], chans = (\<lambda>c. None), next_chan = 0, pending = None\<rparr>"

text \<open>Lines 93-99: the archive is copied front to back into a slice.\<close>

definition copy_archive :: "Event list \<Rightarrow> Event list" where
  "copy_archive a = foldl (\<lambda>events e. events @ [e]) [] a"

text \<open>Lines 92-106: case \<open>c := <-ch.subscribe\<close>; the value sent on \<open>c\<close> is returned.\<close>

definition subscribe :: "room \<Rightarrow> Subscription \<times> room" where
  "subscribe s =
     (let events = copy_archive (archive s);
          subscriber = next_chan s
      in (\<lparr>Archive = events, New = subscriber\<rparr>,
          s\<lparr>chans := (chans s)(subscriber \<mapsto> make_chan 10),
            next_chan := Suc subscriber,
            subscribers := subscribers s @ [subscriber]\<rparr>))"

text \<open>
  Line 115, \<open>subscriber <- event\<close>: the send goes through when the buffer has room and
  blocks otherwise (a send on a nil channel blocks forever); \<open>None\<close> is "blocks".
\<close>

definition try_send :: "Event \<Rightarrow> chan \<Rightarrow> store \<Rightarrow> store option" where
  "try_send e c h =
     (case h c of
        None \<Rightarrow> None
      | Some ch \<Rightarrow>
          if length (buf ch) < cap ch then Some (h(c \<mapsto> ch\<lparr>buf := buf ch @ [e]\<rparr>))
          else None)"

text \<open>
  Lines 110-116: the loop over the subscriber list, from a given element on. It returns
  the store and the subscribers not served yet: \<open>[]\<close> when the loop ran to its end.
\<close>

fun fanout :: "Event \<Rightarrow> chan list \<Rightarrow> store \<Rightarrow> store \<times> chan list" where
  "fanout e [] h = (h, [])"
| "fanout e (c # cs) h =
     (case try_send e c h of
        None \<Rightarrow> (h, c # cs)
      | Some h' \<Rightarrow> fanout e cs h')"

text \<open>Lines 118-122: drop the front element when 20 or more are stored, then push back.\<close>

definition archive_push :: "Event \<Rightarrow> Event list \<Rightarrow> Event list" where
  "archive_push e a = (if length a \<ge> 20 then tl a else a) @ [e]"

text \<open>
  Lines 108-122 from the subscriber list \<open>cs\<close> on: the fan-out, and the archive update
  once the fan-out has ended.
\<close>

definition deliver :: "Event \<Rightarrow> chan list \<Rightarrow> room \<Rightarrow> room" where
  "deliver e cs s =
     (case fanout e cs (chans s) of
        (h, []) \<Rightarrow> s\<lparr>chans := h, archive := archive_push e (archive s), pending := None\<rparr>
      | (h, r # rs) \<Rightarrow> s\<lparr>chans := h, pending := Some (e, r # rs)\<rparr>)"

text \<open>Case \<open>event := <-ch.publish\<close>, and the actor going on after a blocked send.\<close>

definition publish :: "Event \<Rightarrow> room \<Rightarrow> room" where
  "publish e s = deliver e (subscribers s) s"

definition resume :: "room \<Rightarrow> room" where
  "resume s = (case pending s of None \<Rightarrow> s | Some (e, cs) \<Rightarrow> deliver e cs s)"

text \<open>Lines 124-132: the first list element equal to \<open>c\<close> is removed, then \<open>break\<close>.\<close>

fun remove_first :: "chan \<Rightarrow> chan list \<Rightarrow> chan list" where
  "remove_first c [] = []"
| "remove_first c (x # xs) = (if x = c then xs else x # remove_first c xs)"

definition unsubscribe :: "chan \<Rightarrow> room \<Rightarrow> room" where
  "unsubscribe c s = s\<lparr>subscribers := remove_first c (subscribers s)\<rparr>"

section \<open>The client side of a channel\<close>

text \<open>
  A receive that does not wait (\<open><-s.New\<close> of lines 58 and 227): the oldest buffered
  event, or \<open>None\<close> when the buffer is empty.
\<close>

definition recv :: "chan \<Rightarrow> store \<Rightarrow> (Event \<times> store) option" where
  "recv c h =
     (case h c of
        None \<Rightarrow> None
      | Some ch \<Rightarrow>
          (case buf ch of
             [] \<Rightarrow> None
           | e # es \<Rightarrow> Some (e, h(c \<mapsto> ch\<lparr>buf := es, taken := taken ch @ [e]\<rparr>))))"

text \<open>Lines 56-65: the loop of \<open>Cancel\<close> takes events until the \<open>default\<close> branch is hit.\<close>

function drain :: "chan \<Rightarrow> store \<Rightarrow> store" where
  "drain c h = (case recv c h of None \<Rightarrow> h | Some (e, h') \<Rightarrow> drain c h')"
  by pat_completeness auto
termination
  by (relation "measure (\<lambda>(c, h). case h c of None \<Rightarrow> 0 | Some ch \<Rightarrow> length (buf ch))")
     (auto simp: recv_def split: option.splits list.splits)

text \<open>
  Lines 53-66, \<open>Cancel\<close>: the handle is sent to the actor, which removes it, and the
  caller then drains the handle.
\<close>

definition Cancel :: "chan \<Rightarrow> room \<Rightarrow> room" where
  "Cancel c s = (let s' = unsubscribe c s in s'\<lparr>chans := drain c (chans s')\<rparr>)"

section \<open>Executions of one room\<close>

text \<open>
  What can happen to a room, one event at a time. The actor takes a request only at its
  \<open>select\<close>; a client takes an event only from a buffer that holds one; \<open>None\<close> means
  the step cannot happen in that state (its caller waits).
\<close>

datatype action = Sub | Pub Event | Unsub chan | Recv chan | Drain chan | Resume

fun step :: "action \<Rightarrow> room \<Rightarrow> room option" where
  "step Sub s = (if pending s = None then Some (snd (subscribe s)) else None)"
| "step (Pub e) s = (if pending s = None then Some (publish e s) else None)"
| "step (Unsub c) s = (if pending s = None then Some (unsubscribe c s) else None)"
| "step (Recv c) s =
     (case recv c (chans s) of None \<Rightarrow> None | Some (e, h) \<Rightarrow> Some (s\<lparr>chans := h\<rparr>))"
| "step (Drain c) s = Some (s\<lparr>chans := drain c (chans s)\<rparr>)"
| "step Resume s = (if pending s = None then None else Some (resume s))"

fun run :: "action list \<Rightarrow> room \<Rightarrow> room option" where
  "run [] s = Some s"
| "run (a # as) s = (case step a s of None \<Rightarrow> None | Some s' \<Rightarrow> run as s')"

text \<open>The events handed to the actor by the publishes of an execution, in order.\<close>

fun pubs :: "action list \<Rightarrow> Event list" where
  "pubs [] = []"
| "pubs (Pub e # as) = e # pubs as"
| "pubs (a # as) = pubs as"

text \<open>
  The publishes the actor has gone through to the end: all of them at the \<open>select\<close>,
  all but the last while that one is suspended in its fan-out.
\<close>

definition completed :: "action list \<Rightarrow> room \<Rightarrow> Event list" where
  "completed as s = (if pending s = None then pubs as else butlast (pubs as))"

text \<open>The last \<open>n\<close> elements of a list.\<close>

definition last_n :: "nat \<Rightarrow> 'a list \<Rightarrow> 'a list" where
  "last_n n xs = drop (length xs - n) xs"

text \<open>Everything sent on a channel so far: what was taken from it, then what it holds.\<close>

definition delivered :: "room \<Rightarrow> chan \<Rightarrow> Event list" where
  "delivered s c = (case chans s c of None \<Rightarrow> [] | Some ch \<Rightarrow> taken ch @ buf ch)"

text \<open>The event a suspended fan-out still owes to a channel.\<close>

definition owed :: "room \<Rightarrow> chan \<Rightarrow> Event list" where
  "owed s c =
     (case pending s of
        None \<Rightarrow> []
      | Some (e, cs) \<Rightarrow> if c \<in> set cs then [e] else [])"

text \<open>
  What holds of every room an execution reaches: the subscriber list has no duplicate
  and holds allocated channels only, the allocated channels are those below the counter,
  each has capacity 10 and never more than 10 buffered events, and a suspended fan-out
  waits on subscribers of the room.
\<close>

definition wf_room :: "room \<Rightarrow> bool" where
  "wf_room s \<longleftrightarrow>
     distinct (subscribers s) \<and>
     (\<forall>c \<in> set (subscribers s). c < next_chan s) \<and>
     (\<forall>c. chans s c \<noteq> None \<longleftrightarrow> c < next_chan s) \<and>
     (\<forall>c ch. chans s c = Some ch \<longrightarrow> cap ch = 10 \<and> length (buf ch) \<le> 10) \<and>
     (\<forall>e cs. pending s = Some (e, cs) \<longrightarrow>
        cs \<noteq> [] \<and> distinct cs \<and> set cs \<subseteq> set (subscribers s))"

section \<open>The connection handlers (function main, lines 144-241)\<close>

text \<open>
  \<open>strings.Split(src, "|")\<close> for a separator of one byte: the pieces between the
  separators, one more than there are separators (so never an empty slice).
\<close>

fun Split :: "string \<Rightarrow> char \<Rightarrow> string list" where
  "Split [] d = [[]]"
| "Split (c # cs) d =
     (if c = d then [] # Split cs d
      else (case Split cs d of [] \<Rightarrow> [[c]] | w # ws \<Rightarrow> (c # w) # ws))"

text \<open>Indexing a slice: \<open>None\<close> is the run-time panic "index out of range".\<close>

definition index :: "'a list \<Rightarrow> nat \<Rightarrow> 'a option" where
  "index xs i = (if i < length xs then Some (xs ! i) else None)"

text \<open>Lines 149-152 and 178-181: the three fields, read one after the other.\<close>

definition payload_fields :: "string \<Rightarrow> (string \<times> string \<times> string) option" where
  "payload_fields src =
     (let data = Split src CHR ''|'' in
      case index data 0 of
        None \<Rightarrow> None
      | Some roomID \<Rightarrow>
          (case index data 1 of
             None \<Rightarrow> None
           | Some userID \<Rightarrow>
               (case index data 2 of
                  None \<Rightarrow> None
                | Some userPw \<Rightarrow> Some (roomID, userID, userPw))))"

text \<open>
  The \<open>Channels\<close> struct (lines 18-23). Its three request channels lead to the room's
  goroutine, whose state stands for them here; \<open>userList\<close> is the Go map.
\<close>

record Channels =
  userList :: "string \<Rightarrow> string option"
  worker :: room

type_synonym registry = "string \<Rightarrow> Channels option"

text \<open>What a handler sends to its own socket with \<open>so.Emit\<close>: the event name and the value.\<close>

datatype payload = Msg string | Evt Event

type_synonym emit = "string \<times> payload"

text \<open>
  How a handler ends: with a panic, waiting for the room's actor (which is suspended
  in a send and does not take requests), or by returning.
\<close>

datatype 'a outcome = Panics | Waits | Returns 'a

text \<open>Lines 147-174, the callback of "register"; the argument is the map \<open>chatRooms\<close>.\<close>

definition register :: "string \<Rightarrow> registry \<Rightarrow> registry outcome" where
  "register src chatRooms =
     (case payload_fields src of
        None \<Rightarrow> Panics
      | Some (roomID, userID, userPw) \<Rightarrow>
          (case chatRooms roomID of
             None \<Rightarrow>
               (let newChannel = \<lparr>userList = (\<lambda>u. None), worker = Chatroom_init\<rparr>
                in Returns (chatRooms(roomID \<mapsto>
                     newChannel\<lparr>userList := (userList newChannel)(userID \<mapsto> userPw)\<rparr>)))
           | Some v \<Rightarrow>
               Returns (chatRooms(roomID \<mapsto> v\<lparr>userList := (userList v)(userID \<mapsto> userPw)\<rparr>))))"

text \<open>The publishing functions \<open>Join\<close>, \<open>Say\<close> and \<open>Leave\<close> (lines 69-81).\<close>

definition Join :: "int \<Rightarrow> string \<Rightarrow> room \<Rightarrow> room" where
  "Join now user s = publish (NewEvent now ''join'' user []) s"

definition Say :: "int \<Rightarrow> string \<Rightarrow> string \<Rightarrow> room \<Rightarrow> room" where
  "Say now user message s = publish (NewEvent now ''message'' user message) s"

definition Leave :: "int \<Rightarrow> string \<Rightarrow> room \<Rightarrow> room" where
  "Leave now user s = publish (NewEvent now ''leave'' user []) s"

text \<open>
  Lines 176-240, the callback of "login", up to the registration of the callbacks of the
  session: the registry afterwards, the values emitted on the socket of the caller, and
  the subscription of the session when there is one.
\<close>

definition login ::
  "string \<Rightarrow> int \<Rightarrow> registry \<Rightarrow> (registry \<times> emit list \<times> Subscription option) outcome" where
  "login src now chatRooms =
     (case payload_fields src of
        None \<Rightarrow> Panics
      | Some (roomID, userID, userPw) \<Rightarrow>
          (case chatRooms roomID of
             None \<Rightarrow>
               Returns (chatRooms,
                 [(''error'', Msg (''Chat room with room id '' @ roomID @ '' doesn't exist''))],
                 None)
           | Some v \<Rightarrow>
               (case userList v userID of
                  None \<Rightarrow>
                    Returns (chatRooms,
                      [(''error'',
                        Msg ''You're not found in the user list. Please register first'')],
                      None)
                | Some pw \<Rightarrow>
                    if pw \<noteq> userPw then
                      Returns (chatRooms, [(''error'', Msg ''Password is incorrect!'')], None)
                    else if pending (worker v) \<noteq> None then Waits
                    else
                      (let (s, w) = subscribe (worker v);
                           w' = Join now userID w
                       in Returns (chatRooms(roomID \<mapsto> v\<lparr>worker := w'\<rparr>),
                            map (\<lambda>event. (''event'', Evt event)) (Archive s),
                            Some s)))))"

section \<open>The publish step as the specification words it\<close>

text \<open>
  The specification's description of Publish, to be compared with \<open>publish\<close>: the
  event is first appended to the archive (the oldest element evicted at capacity), and
  then sent to every handle of the membership set, in the order of the set.
\<close>

definition publish_spec :: "Event \<Rightarrow> room \<Rightarrow> room" where
  "publish_spec e s =
     (let s' = s\<lparr>archive := archive_push e (archive s)\<rparr> in
      case fanout e (subscribers s') (chans s') of
        (h, []) \<Rightarrow> s'\<lparr>chans := h, pending := None\<rparr>
      | (h, r # rs) \<Rightarrow> s'\<lparr>chans := h, pending := Some (e, r # rs)\<rparr>)"

text \<open>Concrete events and a run of publishes, used to exercise the theorems.\<close>

definition ev :: "nat \<Rightarrow> Event" where
  "ev n = NewEvent (int n) ''message'' ''alice'' ''hi''"

definition pub_run :: "nat \<Rightarrow> action list" where
  "pub_run n = map (\<lambda>i. Pub (ev i)) [0..<n]"

text \<open>The registry after \<open>register("R1|alice|pw1")\<close> on the empty registry.\<close>

definition demo_registry :: registry where
  "demo_registry =
     (\<lambda>r. None)(''R1'' \<mapsto>
        \<lparr>userList = (\<lambda>u. None)(''alice'' \<mapsto> ''pw1''), worker = Chatroom_init\<rparr>)"

section \<open>Channels, the fan-out and the drain loop\<close>

lemma foldl_snoc_acc: "foldl (\<lambda>events e. events @ [e]) acc a = acc @ a"
  by (induction a arbitrary: acc) auto

lemma copy_archive_id: "copy_archive a = a"
  by (simp add: copy_archive_def foldl_snoc_acc)

lemma archive_push_last_n: "archive_push e (last_n 20 xs) = last_n 20 (xs @ [e])"
proof (cases "length xs \<ge> 20")
  case True
  then have "Suc (length xs) - 20 = Suc (length xs - 20)" by arith
  then have "tl (drop (length xs - 20) xs) = drop (Suc (length xs) - 20) xs"
    by (simp add: drop_Suc tl_drop)
  with True show ?thesis by (simp add: archive_push_def last_n_def)
next
  case False
  then show ?thesis by (simp add: archive_push_def last_n_def)
qed

lemma length_last_n: "length (last_n n xs) \<le> n"
  by (simp add: last_n_def)

lemma run_append:
  "run (as @ bs) s = (case run as s of None \<Rightarrow> None | Some s' \<Rightarrow> run bs s')"
  by (induction as arbitrary: s) (auto split: option.splits)

lemma pubs_append: "pubs (as @ bs) = pubs as @ pubs bs"
  by (induction as rule: pubs.induct) auto

lemma fanout_suffix: "fanout e cs h = (h', r) \<Longrightarrow> \<exists>p. cs = p @ r"
proof (induction cs arbitrary: h)
  case Nil
  then show ?case by simp
next
  case (Cons c cs)
  show ?case
  proof (cases "try_send e c h")
    case None
    with Cons.prems show ?thesis by simp
  next
    case (Some h1)
    with Cons.prems have "fanout e cs h1 = (h', r)" by simp
    from Cons.IH [OF this] obtain p where "cs = p @ r" ..
    then have "c # cs = (c # p) @ r" by simp
    then show ?thesis ..
  qed
qed

lemma try_send_other: "try_send e c h = Some h' \<Longrightarrow> c' \<noteq> c \<Longrightarrow> h' c' = h c'"
  by (auto simp: try_send_def split: option.splits if_splits)

lemma try_send_same:
  "try_send e c h = Some h' \<Longrightarrow>
   \<exists>ch. h c = Some ch \<and> length (buf ch) < cap ch \<and> h' c = Some (ch\<lparr>buf := buf ch @ [e]\<rparr>)"
  by (auto simp: try_send_def split: option.splits if_splits)

lemma fanout_other: "c \<notin> set cs \<Longrightarrow> fst (fanout e cs h) c = h c"
  by (induction cs arbitrary: h) (auto split: option.splits simp: try_send_other)

lemma fanout_waiting:
  "distinct cs \<Longrightarrow> fanout e cs h = (h', r) \<Longrightarrow> c \<in> set r \<Longrightarrow> h' c = h c"
proof (induction cs arbitrary: h)
  case Nil
  then show ?case by simp
next
  case (Cons x cs)
  show ?case
  proof (cases "try_send e x h")
    case None
    with Cons.prems show ?thesis by simp
  next
    case (Some h1)
    with Cons.prems have f: "fanout e cs h1 = (h', r)" by simp
    from fanout_suffix [OF f] Cons.prems have "c \<in> set cs" by auto
    with Cons.prems have "c \<noteq> x" by auto
    with Some have "h1 c = h c" by (simp add: try_send_other)
    moreover from Cons.IH [OF _ f] Cons.prems have "h' c = h1 c" by simp
    ultimately show ?thesis by simp
  qed
qed

lemma fanout_served:
  "distinct cs \<Longrightarrow> fanout e cs h = (h', r) \<Longrightarrow> c \<in> set cs \<Longrightarrow> c \<notin> set r \<Longrightarrow>
   \<exists>ch. h c = Some ch \<and> length (buf ch) < cap ch \<and> h' c = Some (ch\<lparr>buf := buf ch @ [e]\<rparr>)"
proof (induction cs arbitrary: h)
  case Nil
  then show ?case by simp
next
  case (Cons x cs)
  show ?case
  proof (cases "try_send e x h")
    case None
    with Cons.prems show ?thesis by auto
  next
    case (Some h1)
    with Cons.prems have f: "fanout e cs h1 = (h', r)" by simp
    show ?thesis
    proof (cases "c = x")
      case True
      with Cons.prems have "c \<notin> set cs" by simp
      then have "fst (fanout e cs h1) c = h1 c" by (rule fanout_other)
      with f have "h' c = h1 c" by simp
      with try_send_same [OF Some] True show ?thesis by auto
    next
      case False
      with Cons.prems have "c \<in> set cs" by simp
      from Cons.IH [OF _ f this] Cons.prems
      obtain ch where "h1 c = Some ch" "length (buf ch) < cap ch"
        "h' c = Some (ch\<lparr>buf := buf ch @ [e]\<rparr>)" by auto
      with try_send_other [OF Some False] show ?thesis by (intro exI [of _ ch]) simp
    qed
  qed
qed

lemma recv_cases:
  "recv c h = Some (e, h') \<Longrightarrow>
   \<exists>ch es. h c = Some ch \<and> buf ch = e # es \<and> h' = h(c \<mapsto> ch\<lparr>buf := es, taken := taken ch @ [e]\<rparr>)"
  by (auto simp: recv_def split: option.splits list.splits)

declare drain.simps [simp del]

lemma drain_None: "recv c h = None \<Longrightarrow> drain c h = h"
  by (subst drain.simps) simp

lemma drain_Some: "recv c h = Some (e, h') \<Longrightarrow> drain c h = drain c h'"
  by (subst drain.simps) simp

lemma drain_other: "c' \<noteq> c \<Longrightarrow> drain c h c' = h c'"
proof (induction c h rule: drain.induct)
  case (1 c h)
  show ?case
  proof (cases "recv c h")
    case None
    then show ?thesis by (simp add: drain_None)
  next
    case (Some p)
    obtain e h1 where p: "p = (e, h1)" by (cases p)
    from recv_cases [OF Some [unfolded p]] "1.prems" have "h1 c' = h c'" by auto
    with "1.IH" [OF Some [unfolded p] refl "1.prems"] Some p show ?thesis
      by (simp add: drain_Some)
  qed
qed

lemma drain_same:
  "drain c h c =
   (case h c of None \<Rightarrow> None | Some ch \<Rightarrow> Some (ch\<lparr>buf := [], taken := taken ch @ buf ch\<rparr>))"
proof (induction c h rule: drain.induct)
  case (1 c h)
  show ?case
  proof (cases "recv c h")
    case None
    then show ?thesis
      by (auto simp: drain_None recv_def split: option.splits list.splits)
  next
    case (Some p)
    obtain e h1 where p: "p = (e, h1)" by (cases p)
    from recv_cases [OF Some [unfolded p]] obtain ch es where
      h: "h c = Some ch" "buf ch = e # es"
         "h1 = h(c \<mapsto> ch\<lparr>buf := es, taken := taken ch @ [e]\<rparr>)"
      by auto
    have "drain c h c = drain c h1 c" using Some p by (simp add: drain_Some)
    also have "\<dots> = Some (ch\<lparr>buf := [], taken := taken ch @ buf ch\<rparr>)"
    proof -
      have "h1 c = Some (ch\<lparr>buf := es, taken := taken ch @ [e]\<rparr>)" using h(3) by simp
      with "1.IH" [OF Some [unfolded p] refl] h(2) show ?thesis by simp
    qed
    finally show ?thesis using h by simp
  qed
qed

section \<open>Every reachable room is well formed\<close>

lemma fanout_cases:
  assumes "distinct cs" and "fanout e cs h = (h', r)"
  shows "if x \<in> set cs \<and> x \<notin> set r
         then \<exists>ch. h x = Some ch \<and> length (buf ch) < cap ch \<and>
                h' x = Some (ch\<lparr>buf := buf ch @ [e]\<rparr>)
         else h' x = h x"
proof (cases "x \<in> set cs")
  case False
  from fanout_other [OF False, of e h] assms(2) show ?thesis using False by simp
next
  case True
  show ?thesis
  proof (cases "x \<in> set r")
    case True
    with fanout_waiting [OF assms this] show ?thesis by simp
  next
    case False
    with fanout_served [OF assms True False] True show ?thesis by simp
  qed
qed

lemma fanout_dom:
  assumes "distinct cs" and "fanout e cs h = (h', r)"
  shows "h' x \<noteq> None \<longleftrightarrow> h x \<noteq> None"
  using fanout_cases [OF assms, of x] by (auto split: if_splits)

lemma fanout_bounds:
  assumes "distinct cs" and "fanout e cs h = (h', r)"
    and "\<forall>c ch. h c = Some ch \<longrightarrow> cap ch = 10 \<and> length (buf ch) \<le> 10"
    and "h' x = Some ch'"
  shows "cap ch' = 10 \<and> length (buf ch') \<le> 10"
  using fanout_cases [OF assms(1,2), of x] assms(3,4) by (auto split: if_splits)

lemma wf_deliver:
  assumes wf: "wf_room s" and d: "distinct cs" and sub: "set cs \<subseteq> set (subscribers s)"
  shows "wf_room (deliver e cs s)"
proof -
  obtain h' r where f: "fanout e cs (chans s) = (h', r)" by (cases "fanout e cs (chans s)")
  from fanout_suffix [OF f] obtain p where p: "cs = p @ r" ..
  from p d sub have r: "distinct r" "set r \<subseteq> set (subscribers s)" by auto
  have dom: "\<And>x. h' x \<noteq> None \<longleftrightarrow> x < next_chan s"
    using fanout_dom [OF d f] wf by (simp add: wf_room_def)
  have bnd: "\<And>x ch'. h' x = Some ch' \<Longrightarrow> cap ch' = 10 \<and> length (buf ch') \<le> 10"
    using fanout_bounds [OF d f] wf unfolding wf_room_def by blast
  show ?thesis
  proof (cases r)
    case Nil
    with f have "deliver e cs s =
        s\<lparr>chans := h', archive := archive_push e (archive s), pending := None\<rparr>"
      by (simp add: deliver_def)
    with wf dom bnd show ?thesis by (simp add: wf_room_def)
  next
    case (Cons y ys)
    with f have "deliver e cs s = s\<lparr>chans := h', pending := Some (e, r)\<rparr>"
      by (simp add: deliver_def)
    with wf dom bnd r Cons show ?thesis by (simp add: wf_room_def)
  qed
qed

lemma remove_first_set: "set (remove_first c xs) \<subseteq> set xs"
  by (induction xs) auto

lemma remove_first_distinct: "distinct xs \<Longrightarrow> distinct (remove_first c xs)"
proof (induction xs)
  case Nil
  then show ?case by simp
next
  case (Cons x xs)
  with remove_first_set [of c xs] show ?case by auto
qed

lemma remove_first_absent: "c \<notin> set xs \<Longrightarrow> remove_first c xs = xs"
  by (induction xs) auto

lemma remove_first_gone: "distinct xs \<Longrightarrow> c \<notin> set (remove_first c xs)"
proof (induction xs)
  case Nil
  then show ?case by simp
next
  case (Cons x xs)
  then show ?case by auto
qed

lemma remove_first_keeps: "x \<noteq> c \<Longrightarrow> x \<in> set xs \<Longrightarrow> x \<in> set (remove_first c xs)"
  by (induction xs) auto

lemma wf_subscribe: "wf_room s \<Longrightarrow> pending s = None \<Longrightarrow> wf_room (snd (subscribe s))"
  by (auto simp: wf_room_def subscribe_def Let_def make_chan_def less_Suc_eq)

lemma wf_unsubscribe: "wf_room s \<Longrightarrow> pending s = None \<Longrightarrow> wf_room (unsubscribe c s)"
  using remove_first_set [of c "subscribers s"]
  by (auto simp: wf_room_def unsubscribe_def remove_first_distinct)

lemma wf_recv:
  assumes "wf_room s" and "recv c (chans s) = Some (e, h)"
  shows "wf_room (s\<lparr>chans := h\<rparr>)"
proof -
  from recv_cases [OF assms(2)] obtain ch es where
    h: "chans s c = Some ch" "buf ch = e # es"
       "h = (chans s)(c \<mapsto> ch\<lparr>buf := es, taken := taken ch @ [e]\<rparr>)" by auto
  have "cap ch = 10 \<and> length (buf ch) \<le> 10" using assms(1) h(1) unfolding wf_room_def by blast
  with assms(1) h show ?thesis by (auto simp: wf_room_def)
qed

lemma wf_drain:
  assumes "wf_room s"
  shows "wf_room (s\<lparr>chans := drain c (chans s)\<rparr>)"
proof -
  have dom: "\<And>x. drain c (chans s) x \<noteq> None \<longleftrightarrow> chans s x \<noteq> None"
  proof -
    fix x show "drain c (chans s) x \<noteq> None \<longleftrightarrow> chans s x \<noteq> None"
      by (cases "x = c") (auto simp: drain_same drain_other split: option.splits)
  qed
  have bnd: "\<And>x ch'. drain c (chans s) x = Some ch' \<Longrightarrow> cap ch' = 10 \<and> length (buf ch') \<le> 10"
  proof -
    fix x ch' assume a: "drain c (chans s) x = Some ch'"
    have w: "\<And>ch. chans s x = Some ch \<Longrightarrow> cap ch = 10 \<and> length (buf ch) \<le> 10"
      using assms unfolding wf_room_def by blast
    show "cap ch' = 10 \<and> length (buf ch') \<le> 10"
    proof (cases "x = c")
      case True
      with a w show ?thesis by (auto simp: drain_same split: option.splits)
    next
      case False
      with a w show ?thesis by (simp add: drain_other)
    qed
  qed
  from assms dom bnd show ?thesis by (simp add: wf_room_def)
qed

lemma wf_resume: "wf_room s \<Longrightarrow> wf_room (resume s)"
proof (cases "pending s")
  case None
  assume "wf_room s"
  with None show ?thesis by (simp add: resume_def)
next
  case (Some p)
  assume wf: "wf_room s"
  obtain e cs where p: "p = (e, cs)" by (cases p)
  from wf Some p have "distinct cs" "set cs \<subseteq> set (subscribers s)"
    by (auto simp: wf_room_def)
  from wf_deliver [OF wf this] Some p show ?thesis by (simp add: resume_def)
qed

lemma wf_publish: "wf_room s \<Longrightarrow> wf_room (publish e s)"
  unfolding publish_def by (rule wf_deliver) (auto simp: wf_room_def)

lemma wf_step: "wf_room s \<Longrightarrow> step a s = Some s' \<Longrightarrow> wf_room s'"
proof (cases a)
  case Sub
  assume "wf_room s" "step a s = Some s'"
  with Sub show ?thesis by (auto simp: wf_subscribe split: if_splits)
next
  case (Pub e)
  assume "wf_room s" "step a s = Some s'"
  with Pub show ?thesis by (auto simp: wf_publish split: if_splits)
next
  case (Unsub c)
  assume "wf_room s" "step a s = Some s'"
  with Unsub show ?thesis by (auto simp: wf_unsubscribe split: if_splits)
next
  case (Recv c)
  assume "wf_room s" "step a s = Some s'"
  with Recv show ?thesis by (auto simp: wf_recv split: option.splits)
next
  case (Drain c)
  assume "wf_room s" "step a s = Some s'"
  with Drain show ?thesis by (auto simp: wf_drain)
next
  case Resume
  assume "wf_room s" "step a s = Some s'"
  with Resume show ?thesis by (auto simp: wf_resume split: if_splits)
qed

lemma wf_run: "wf_room s \<Longrightarrow> run as s = Some s' \<Longrightarrow> wf_room s'"
proof (induction as arbitrary: s)
  case Nil
  then show ?case by simp
next
  case (Cons a as)
  then show ?case by (auto split: option.splits dest: wf_step)
qed

lemma wf_init: "wf_room Chatroom_init"
  by (simp add: wf_room_def Chatroom_init_def)

section \<open>The archive holds the last 20 completed publishes\<close>

lemma deliver_outcome:
  "(pending (deliver e cs s) = None \<and> archive (deliver e cs s) = archive_push e (archive s)) \<or>
   ((\<exists>r. pending (deliver e cs s) = Some (e, r)) \<and> archive (deliver e cs s) = archive s)"
  by (auto simp: deliver_def split: prod.splits list.splits)

lemma deliver_frame:
  "subscribers (deliver e cs s) = subscribers s \<and> next_chan (deliver e cs s) = next_chan s"
  by (auto simp: deliver_def split: prod.splits list.splits)

lemma run_snoc:
  "run (as @ [a]) s = Some s' \<longleftrightarrow> (\<exists>t. run as s = Some t \<and> step a t = Some s')"
  by (auto simp: run_append split: option.splits)

lemma pubs_snoc: "pubs (as @ [a]) = pubs as @ (case a of Pub e \<Rightarrow> [e] | _ \<Rightarrow> [])"
  by (cases a) (simp_all add: pubs_append)

lemma archive_step:
  assumes inv: "archive t = last_n 20 (completed as t)"
      "\<forall>e cs. pending t = Some (e, cs) \<longrightarrow> pubs as \<noteq> [] \<and> last (pubs as) = e"
    and st: "step a t = Some s"
  shows "archive s = last_n 20 (completed (as @ [a]) s) \<and>
         (\<forall>e cs. pending s = Some (e, cs) \<longrightarrow>
            pubs (as @ [a]) \<noteq> [] \<and> last (pubs (as @ [a])) = e)"
proof (cases a)
  case Sub
  with inv st show ?thesis
    by (auto simp: completed_def pubs_snoc subscribe_def Let_def split: if_splits)
next
  case (Pub e)
  with st have p: "pending t = None" and s: "s = deliver e (subscribers t) t"
    by (auto simp: publish_def split: if_splits)
  from p inv have a: "archive t = last_n 20 (pubs as)" by (simp add: completed_def)
  from deliver_outcome [of e "subscribers t" t] show ?thesis
  proof
    assume "pending (deliver e (subscribers t) t) = None \<and>
      archive (deliver e (subscribers t) t) = archive_push e (archive t)"
    with s a Pub show ?thesis
      by (simp add: completed_def pubs_snoc archive_push_last_n)
  next
    assume "(\<exists>r. pending (deliver e (subscribers t) t) = Some (e, r)) \<and>
      archive (deliver e (subscribers t) t) = archive t"
    with s a Pub show ?thesis
      by (auto simp: completed_def pubs_snoc)
  qed
next
  case (Unsub c)
  with inv st show ?thesis
    by (auto simp: completed_def pubs_snoc unsubscribe_def split: if_splits)
next
  case (Recv c)
  with inv st show ?thesis
    by (auto simp: completed_def pubs_snoc split: option.splits)
next
  case (Drain c)
  with inv st show ?thesis
    by (auto simp: completed_def pubs_snoc)
next
  case Resume
  with st obtain e cs where p: "pending t = Some (e, cs)" and s: "s = deliver e cs t"
    by (auto simp: resume_def split: if_splits)
  from p inv have ne: "pubs as \<noteq> []" and l: "last (pubs as) = e" by auto
  from p inv have a: "archive t = last_n 20 (butlast (pubs as))" by (simp add: completed_def)
  from ne l have bl: "butlast (pubs as) @ [e] = pubs as" by (metis append_butlast_last_id)
  from deliver_outcome [of e cs t] show ?thesis
  proof
    assume "pending (deliver e cs t) = None \<and>
      archive (deliver e cs t) = archive_push e (archive t)"
    with s a Resume bl show ?thesis
      by (simp add: completed_def pubs_snoc archive_push_last_n)
  next
    assume "(\<exists>r. pending (deliver e cs t) = Some (e, r)) \<and>
      archive (deliver e cs t) = archive t"
    with s a Resume ne l show ?thesis
      by (auto simp: completed_def pubs_snoc)
  qed
qed

lemma archive_inv:
  "run as Chatroom_init = Some s \<Longrightarrow>
   archive s = last_n 20 (completed as s) \<and>
   (\<forall>e cs. pending s = Some (e, cs) \<longrightarrow> pubs as \<noteq> [] \<and> last (pubs as) = e)"
proof (induction as arbitrary: s rule: rev_induct)
  case Nil
  then show ?case by (auto simp: Chatroom_init_def completed_def last_n_def)
next
  case (snoc a as)
  from snoc.prems obtain t where t: "run as Chatroom_init = Some t" "step a t = Some s"
    by (auto simp: run_snoc)
  from snoc.IH [OF t(1)] have
    "archive t = last_n 20 (completed as t)"
    "\<forall>e cs. pending t = Some (e, cs) \<longrightarrow> pubs as \<noteq> [] \<and> last (pubs as) = e"
    by blast+
  from archive_step [OF this t(2)] show ?case .
qed

lemma archive_is_last_20:
  "run as Chatroom_init = Some s \<Longrightarrow> archive s = last_n 20 (completed as s)"
  using archive_inv by blast

section \<open>The claims about the archive\<close>

text \<open>
  Claim C2. In every room an execution reaches, the archive holds at most 20 events; it
  is a run of consecutive completed publishes up to the latest one, in publish order and
  with repetitions kept (nothing is reordered or dropped as a duplicate); and pushing an
  event on a full archive evicts exactly its oldest element.
\<close>

theorem archive_bounded:
  assumes "run as Chatroom_init = Some s"
  shows "length (archive s) \<le> 20 \<and>
         (\<exists>k. archive s = drop k (completed as s)) \<and>
         (\<forall>e. archive_push e (archive s) =
            (if length (archive s) = 20 then tl (archive s) @ [e] else archive s @ [e]))"
proof -
  from archive_is_last_20 [OF assms] have a: "archive s = last_n 20 (completed as s)" .
  then have l: "length (archive s) \<le> 20" by (simp add: length_last_n)
  from a have "\<exists>k. archive s = drop k (completed as s)" unfolding last_n_def by blast
  with l show ?thesis by (auto simp: archive_push_def)
qed

theorem archive_bounded_witness:
  "case run (pub_run 21 @ [Sub, Pub (ev 21), Recv 0]) Chatroom_init of
     None \<Rightarrow> False
   | Some s \<Rightarrow> length (archive s) \<le> 20 \<and>
       archive_push (ev 22) (archive s) = tl (archive s) @ [ev 22]"
proof -
  have "case run (pub_run 21 @ [Sub, Pub (ev 21), Recv 0]) Chatroom_init of None \<Rightarrow> False | Some s \<Rightarrow> True"
    by code_simp
  then obtain s where r: "run (pub_run 21 @ [Sub, Pub (ev 21), Recv 0]) Chatroom_init = Some s"
    by (auto split: option.splits)
  have "case Some s of None \<Rightarrow> False | Some s \<Rightarrow> length (archive s) = 20"
    unfolding r [symmetric] by code_simp
  with archive_bounded [OF r] r show ?thesis by simp
qed

text \<open>
  Claim C3. Once 20 or more publishes have been completed in a room, its archive is
  exactly the last 20 of them, in publish order.
\<close>

theorem archive_last_20:
  assumes "run as Chatroom_init = Some s" and "20 \<le> length (completed as s)"
  shows "archive s = drop (length (completed as s) - 20) (completed as s) \<and>
         length (archive s) = 20"
  using archive_is_last_20 [OF assms(1)] assms(2) by (simp add: last_n_def)

theorem archive_last_20_witness:
  "case run (pub_run 23) Chatroom_init of
     None \<Rightarrow> False
   | Some s \<Rightarrow> 20 \<le> length (completed (pub_run 23) s) \<and>
       archive s = map ev [3..<23] \<and> length (archive s) = 20"
proof -
  have "case run (pub_run 23) Chatroom_init of None \<Rightarrow> False | Some s \<Rightarrow> pending s = None"
    by code_simp
  then obtain s where r: "run (pub_run 23) Chatroom_init = Some s" and p: "pending s = None"
    by (auto split: option.splits)
  have c: "completed (pub_run 23) s = map ev [0..<23]"
    using p unfolding completed_def by simp code_simp
  have d: "drop 3 (map ev [0..<23]) = map ev [3..<23]" by code_simp
  from archive_last_20 [OF r] r c d show ?thesis by simp
qed

section \<open>What is delivered on a channel\<close>

lemma deliver_chans_other: "c \<notin> set cs \<Longrightarrow> chans (deliver e cs s) c = chans s c"
  using fanout_other [of c cs e "chans s"]
  by (auto simp: deliver_def split: prod.splits list.splits)

lemma deliver_pending:
  "pending (deliver e cs s) =
   (if snd (fanout e cs (chans s)) = [] then None else Some (e, snd (fanout e cs (chans s))))"
  by (auto simp: deliver_def split: prod.splits list.splits)

lemma deliver_chans: "chans (deliver e cs s) = fst (fanout e cs (chans s))"
  by (auto simp: deliver_def split: prod.splits list.splits)

lemma deliver_balance:
  assumes "distinct cs"
  shows "delivered (deliver e cs s) c @ owed (deliver e cs s) c =
         delivered s c @ (if c \<in> set cs then [e] else [])"
proof -
  obtain h' r where f: "fanout e cs (chans s) = (h', r)" by (cases "fanout e cs (chans s)")
  from fanout_suffix [OF f] obtain p where p: "cs = p @ r" ..
  have ch: "chans (deliver e cs s) = h'" using f by (simp add: deliver_chans)
  have pe: "pending (deliver e cs s) = (if r = [] then None else Some (e, r))"
    using f by (simp add: deliver_pending)
  show ?thesis
  proof (cases "c \<in> set r")
    case True
    with p have "c \<in> set cs" by simp
    moreover from fanout_waiting [OF assms f True] have "h' c = chans s c" .
    ultimately show ?thesis using True ch pe by (auto simp: delivered_def owed_def)
  next
    case False
    then have ow: "owed (deliver e cs s) c = []" using pe by (simp add: owed_def)
    show ?thesis
    proof (cases "c \<in> set cs")
      case True
      from fanout_served [OF assms f True False] obtain x where
        "chans s c = Some x" "h' c = Some (x\<lparr>buf := buf x @ [e]\<rparr>)" by auto
      with True ow ch show ?thesis by (simp add: delivered_def)
    next
      case False
      from fanout_other [OF False, of e "chans s"] f have "h' c = chans s c" by simp
      with False ow ch show ?thesis by (simp add: delivered_def)
    qed
  qed
qed

lemma delivered_recv:
  assumes "recv x (chans s) = Some (e, h)"
  shows "delivered (s\<lparr>chans := h\<rparr>) c = delivered s c"
proof -
  from recv_cases [OF assms] obtain ch es where
    "chans s x = Some ch" "buf ch = e # es"
    "h = (chans s)(x \<mapsto> ch\<lparr>buf := es, taken := taken ch @ [e]\<rparr>)" by auto
  then show ?thesis by (auto simp: delivered_def)
qed

lemma delivered_drain: "delivered (s\<lparr>chans := drain x (chans s)\<rparr>) c = delivered s c"
  by (cases "c = x") (auto simp: delivered_def drain_same drain_other split: option.splits)

lemma owed_chans_upd: "owed (s\<lparr>chans := h\<rparr>) c = owed s c"
  by (simp add: owed_def)

lemma owed_idle: "pending s = None \<Longrightarrow> owed s c = []"
  by (simp add: owed_def)

lemma owed_stranger: "wf_room s \<Longrightarrow> c \<notin> set (subscribers s) \<Longrightarrow> owed s c = []"
  by (auto simp: owed_def wf_room_def split: option.splits)

text \<open>One step keeps a subscribed handle's account: what it got or is owed grows by the
  event of a publish and by nothing else.\<close>

lemma handle_step:
  assumes wf: "wf_room s" and mem: "c \<in> set (subscribers s)"
    and st: "step a s = Some s'" and a: "a \<noteq> Unsub c"
  shows "c \<in> set (subscribers s') \<and>
         delivered s' c @ owed s' c = delivered s c @ owed s c @ pubs [a]"
proof (cases a)
  case Sub
  with st have p: "pending s = None" and s': "s' = snd (subscribe s)"
    by (auto split: if_splits)
  from wf mem have "c \<noteq> next_chan s" by (auto simp: wf_room_def)
  with p s' mem Sub show ?thesis
    by (auto simp: subscribe_def Let_def delivered_def owed_def)
next
  case (Pub e)
  with st have p: "pending s = None" and s': "s' = deliver e (subscribers s) s"
    by (auto simp: publish_def split: if_splits)
  from wf have "distinct (subscribers s)" by (simp add: wf_room_def)
  from deliver_balance [OF this, of e s c] mem p s' Pub show ?thesis
    by (simp add: owed_idle deliver_frame)
next
  case (Unsub x)
  with st a have p: "pending s = None" and s': "s' = unsubscribe x s" and x: "c \<noteq> x"
    by (auto split: if_splits)
  with mem Unsub show ?thesis
    by (auto simp: unsubscribe_def remove_first_keeps delivered_def owed_def)
next
  case (Recv x)
  with st obtain e h where r: "recv x (chans s) = Some (e, h)" and s': "s' = s\<lparr>chans := h\<rparr>"
    by (auto split: option.splits)
  with delivered_recv [OF r, of c] mem Recv show ?thesis by (simp add: owed_chans_upd)
next
  case (Drain x)
  with st have "s' = s\<lparr>chans := drain x (chans s)\<rparr>" by simp
  with mem Drain show ?thesis by (simp add: delivered_drain owed_chans_upd)
next
  case Resume
  with st obtain e cs where p: "pending s = Some (e, cs)" and s': "s' = deliver e cs s"
    by (auto simp: resume_def split: if_splits)
  from wf p have "distinct cs" by (auto simp: wf_room_def)
  from deliver_balance [OF this, of e s c] p s' mem Resume show ?thesis
    by (simp add: owed_def deliver_frame)
qed

lemma handle_run:
  assumes "run post s = Some s'" and "wf_room s" and "c \<in> set (subscribers s)"
    and "Unsub c \<notin> set post"
  shows "c \<in> set (subscribers s') \<and>
         delivered s' c @ owed s' c = delivered s c @ owed s c @ pubs post"
  using assms
proof (induction post arbitrary: s)
  case Nil
  then show ?case by simp
next
  case (Cons a post)
  from Cons.prems(1) obtain t where t: "step a s = Some t" "run post t = Some s'"
    by (auto split: option.splits)
  from Cons.prems(4) have a: "a \<noteq> Unsub c" "Unsub c \<notin> set post" by auto
  from handle_step [OF Cons.prems(2,3) t(1) a(1)] have
    m: "c \<in> set (subscribers t)" and
    d: "delivered t c @ owed t c = delivered s c @ owed s c @ pubs [a]" by blast+
  from Cons.IH [OF t(2) wf_step [OF Cons.prems(2) t(1)] m a(2)] have
    "c \<in> set (subscribers s')"
    "delivered s' c @ owed s' c = delivered t c @ owed t c @ pubs post" by blast+
  moreover have "pubs (a # post) = pubs [a] @ pubs post" using pubs_append [of "[a]" post] by simp
  ultimately show ?case using d by simp
qed

text \<open>A channel that is not subscribed gets nothing, whatever the step.\<close>

lemma stranger_step:
  assumes wf: "wf_room s" and al: "c < next_chan s" and out: "c \<notin> set (subscribers s)"
    and st: "step a s = Some s'"
  shows "c < next_chan s' \<and> c \<notin> set (subscribers s') \<and> delivered s' c = delivered s c"
proof (cases a)
  case Sub
  with st al out show ?thesis
    by (auto simp: subscribe_def Let_def delivered_def split: if_splits)
next
  case (Pub e)
  with st have "s' = deliver e (subscribers s) s" by (auto simp: publish_def split: if_splits)
  with deliver_chans_other [OF out, of e s] al out show ?thesis
    by (simp add: deliver_frame delivered_def)
next
  case (Unsub x)
  with st al out remove_first_set [of x "subscribers s"] show ?thesis
    by (auto simp: unsubscribe_def delivered_def split: if_splits)
next
  case (Recv x)
  with st obtain e h where r: "recv x (chans s) = Some (e, h)" and s': "s' = s\<lparr>chans := h\<rparr>"
    by (auto split: option.splits)
  with delivered_recv [OF r, of c] al out show ?thesis by simp
next
  case (Drain x)
  with st al out show ?thesis by (auto simp: delivered_drain)
next
  case Resume
  with st obtain e cs where p: "pending s = Some (e, cs)" and s': "s' = deliver e cs s"
    by (auto simp: resume_def split: if_splits)
  from wf p out have "c \<notin> set cs" by (auto simp: wf_room_def)
  from deliver_chans_other [OF this, of e s] s' al out show ?thesis
    by (simp add: deliver_frame delivered_def)
qed

lemma stranger_run:
  assumes "run post s = Some s'" and "wf_room s" and "c < next_chan s"
    and "c \<notin> set (subscribers s)"
  shows "c \<notin> set (subscribers s') \<and> delivered s' c = delivered s c \<and> wf_room s'"
  using assms
proof (induction post arbitrary: s)
  case Nil
  then show ?case by simp
next
  case (Cons a post)
  from Cons.prems(1) obtain t where t: "step a s = Some t" "run post t = Some s'"
    by (auto split: option.splits)
  from stranger_step [OF Cons.prems(2,3,4) t(1)] have
    k: "c < next_chan t" "c \<notin> set (subscribers t)" "delivered t c = delivered s c" by blast+
  from Cons.IH [OF t(2) wf_step [OF Cons.prems(2) t(1)] k(1,2)] k(3) show ?case by simp
qed

section \<open>The claims about subscriptions\<close>

lemma recv_empty: "(case h c of None \<Rightarrow> True | Some ch \<Rightarrow> buf ch = []) \<Longrightarrow> recv c h = None"
  by (auto simp: recv_def split: option.splits)

lemma drain_twice: "drain c (drain c h) = drain c h"
  by (rule drain_None, rule recv_empty) (simp add: drain_same split: option.splits)

lemma Cancel_twice:
  assumes "distinct (subscribers s)"
  shows "Cancel c (Cancel c s) = Cancel c s"
proof -
  have "remove_first c (remove_first c (subscribers s)) = remove_first c (subscribers s)"
    using remove_first_gone [OF assms, of c] by (rule remove_first_absent)
  then show ?thesis by (simp add: Cancel_def unsubscribe_def Let_def drain_twice)
qed

text \<open>
  Claim C1, as the code has it. A subscription is taken after the execution \<open>pre\<close>
  and followed by the execution \<open>post\<close>, in which its handle is never unsubscribed.
  Then the snapshot, followed by everything sent on the handle (and by the one event a
  suspended fan-out still owes it), is the last 20 events published before the
  subscription followed by every event published after it: no gap and no duplicate from
  the snapshot on. It is the room's full publish history when at most 20 events were
  published before the subscription.
\<close>

theorem snapshot_then_live:
  assumes pre: "run pre Chatroom_init = Some s1"
    and sub: "step Sub s1 = Some s2"
    and post: "run post s2 = Some s3"
    and nocancel: "Unsub (New (fst (subscribe s1))) \<notin> set post"
  shows "Archive (fst (subscribe s1)) @
           delivered s3 (New (fst (subscribe s1))) @ owed s3 (New (fst (subscribe s1))) =
         last_n 20 (pubs pre) @ pubs post \<and>
         (length (pubs pre) \<le> 20 \<longrightarrow>
            Archive (fst (subscribe s1)) @
              delivered s3 (New (fst (subscribe s1))) @ owed s3 (New (fst (subscribe s1))) =
            pubs (pre @ Sub # post))"
proof -
  let ?c = "New (fst (subscribe s1))"
  from sub have idle: "pending s1 = None" and s2: "s2 = snd (subscribe s1)"
    by (auto split: if_splits)
  have wf1: "wf_room s1" using wf_run [OF wf_init pre] .
  have wf2: "wf_room s2" using wf_step [OF wf1 sub] .
  have c: "?c = next_chan s1" by (simp add: subscribe_def Let_def)
  have mem: "?c \<in> set (subscribers s2)" using s2 by (simp add: subscribe_def Let_def)
  have fresh: "delivered s2 ?c = []" "owed s2 ?c = []"
    using s2 idle by (simp_all add: subscribe_def Let_def delivered_def owed_def make_chan_def)
  from handle_run [OF post wf2 mem nocancel] fresh
  have live: "delivered s3 ?c @ owed s3 ?c = pubs post" by simp
  from archive_is_last_20 [OF pre] idle have "archive s1 = last_n 20 (pubs pre)"
    by (simp add: completed_def)
  then have "Archive (fst (subscribe s1)) = last_n 20 (pubs pre)"
    by (simp add: subscribe_def Let_def copy_archive_id)
  with live show ?thesis by (simp add: last_n_def pubs_append)
qed

text \<open>The theorem at a concrete execution that satisfies its hypotheses.\<close>

theorem snapshot_then_live_witness:
  "case run (pub_run 21) Chatroom_init of
     None \<Rightarrow> False
   | Some s1 \<Rightarrow>
       (case step Sub s1 of
          None \<Rightarrow> False
        | Some s2 \<Rightarrow>
            (case run [Pub (ev 21), Recv 0, Unsub 1, Pub (ev 22)] s2 of
               None \<Rightarrow> False
             | Some s3 \<Rightarrow>
                 New (fst (subscribe s1)) = 0 \<and>
                 Archive (fst (subscribe s1)) @ delivered s3 0 @ owed s3 0 =
                   map ev [1..<23]))"
proof -
  let ?post = "[Pub (ev 21), Recv 0, Unsub 1, Pub (ev 22)]"
  have "case run (pub_run 21) Chatroom_init of
     None \<Rightarrow> False
   | Some s1 \<Rightarrow>
       (case step Sub s1 of
          None \<Rightarrow> False
        | Some s2 \<Rightarrow>
            (case run ?post s2 of
               None \<Rightarrow> False
             | Some s3 \<Rightarrow> New (fst (subscribe s1)) = 0))"
    by code_simp
  then obtain s1 s2 s3 where r: "run (pub_run 21) Chatroom_init = Some s1"
     "step Sub s1 = Some s2" "run ?post s2 = Some s3" and n: "New (fst (subscribe s1)) = 0"
    by (auto split: option.splits)
  have nc: "Unsub (New (fst (subscribe s1))) \<notin> set ?post" using n by simp
  have e: "last_n 20 (pubs (pub_run 21)) @ pubs ?post = map ev [1..<23]" by code_simp
  from snapshot_then_live [OF r nc] r n e show ?thesis by simp
qed

text \<open>
  Claim C1 as stated fails: after 21 publishes, a subscription and one more publish,
  the snapshot followed by the events sent on the handle is not the full history of the
  22 events (event 0 has left the archive before the subscription).
\<close>

theorem snapshot_then_live_counterexample:
  "Archive (fst (subscribe (fold publish (map ev [0..<21]) Chatroom_init))) @
   delivered (publish (ev 21) (snd (subscribe (fold publish (map ev [0..<21]) Chatroom_init)))) 0
   \<noteq> map ev [0..<22] \<and>
   New (fst (subscribe (fold publish (map ev [0..<21]) Chatroom_init))) = 0 \<and>
   pending (fold publish (map ev [0..<21]) Chatroom_init) = None \<and>
   pending (publish (ev 21) (snd (subscribe (fold publish (map ev [0..<21]) Chatroom_init)))) = None"
  by code_simp

text \<open>
  Claim C5. In every reachable room the subscribe step has one outcome and no error:
  the subscription pairs the archive, copied in order, with a channel that did not exist
  before; the channel is created empty with capacity 10 and is appended to the subscriber
  list in the state the reply leaves behind; nothing else changes. The actor takes the
  request whenever it is at its \<open>select\<close>.
\<close>

theorem subscribe_succeeds:
  assumes "run as Chatroom_init = Some s"
  shows "\<exists>c s'. subscribe s = (\<lparr>Archive = archive s, New = c\<rparr>, s') \<and>
           chans s c = None \<and> c \<notin> set (subscribers s) \<and>
           chans s' c = Some \<lparr>cap = 10, buf = [], taken = []\<rparr> \<and>
           subscribers s' = subscribers s @ [c] \<and>
           archive s' = archive s \<and>
           (\<forall>x. x \<noteq> c \<longrightarrow> chans s' x = chans s x) \<and>
           (pending s = None \<longrightarrow> step Sub s = Some s')"
proof -
  have wf: "wf_room s" using wf_run [OF wf_init assms] .
  then have "chans s (next_chan s) = None" "next_chan s \<notin> set (subscribers s)"
    by (auto simp: wf_room_def)
  then show ?thesis
    by (simp add: subscribe_def Let_def copy_archive_id make_chan_def)
qed

text \<open>The theorem at a concrete execution that satisfies its hypotheses.\<close>

theorem subscribe_succeeds_witness:
  "case run (pub_run 3 @ [Sub, Pub (ev 3)]) Chatroom_init of
     None \<Rightarrow> False
   | Some s \<Rightarrow>
       pending s = None \<and>
       Archive (fst (subscribe s)) = map ev [0..<4] \<and> New (fst (subscribe s)) = 1 \<and>
       chans (snd (subscribe s)) 1 = Some \<lparr>cap = 10, buf = [], taken = []\<rparr> \<and>
       subscribers (snd (subscribe s)) = [0, 1] \<and>
       step Sub s = Some (snd (subscribe s))"
proof -
  have "case run (pub_run 3 @ [Sub, Pub (ev 3)]) Chatroom_init of
     None \<Rightarrow> False
   | Some s \<Rightarrow> pending s = None \<and> archive s = map ev [0..<4] \<and>
       next_chan s = 1 \<and> subscribers s = [0]"
    by code_simp
  then obtain s where r: "run (pub_run 3 @ [Sub, Pub (ev 3)]) Chatroom_init = Some s"
    and f: "pending s = None" "archive s = map ev [0..<4]" "next_chan s = 1" "subscribers s = [0]"
    by (auto split: option.splits)
  have n: "New (fst (subscribe s)) = next_chan s" by (simp add: subscribe_def Let_def)
  from subscribe_succeeds [OF r] obtain c s' where
    k: "subscribe s = (\<lparr>Archive = archive s, New = c\<rparr>, s') \<and>
        chans s c = None \<and> c \<notin> set (subscribers s) \<and>
        chans s' c = Some \<lparr>cap = 10, buf = [], taken = []\<rparr> \<and>
        subscribers s' = subscribers s @ [c] \<and>
        archive s' = archive s \<and>
        (\<forall>x. x \<noteq> c \<longrightarrow> chans s' x = chans s x) \<and>
        (pending s = None \<longrightarrow> step Sub s = Some s')"
    by (elim exE)
  then have "c = New (fst (subscribe s))" by simp
  with n f have "c = 1" by simp
  with k r f show ?thesis by simp
qed

text \<open>
  Claim C8. In every reachable room, unsubscribing a handle that is not in the subscriber
  list changes nothing (and there is no error outcome); after one unsubscribe the handle
  is not in the list, so a second unsubscribe changes nothing; and a second \<open>Cancel\<close>
  (unsubscribe, then drain) leaves the state of the first one.
\<close>

theorem unsubscribe_idempotent:
  assumes "run as Chatroom_init = Some s"
  shows "(c \<notin> set (subscribers s) \<longrightarrow> unsubscribe c s = s) \<and>
         c \<notin> set (subscribers (unsubscribe c s)) \<and>
         unsubscribe c (unsubscribe c s) = unsubscribe c s \<and>
         Cancel c (Cancel c s) = Cancel c s"
proof -
  have wf: "wf_room s" using wf_run [OF wf_init assms] .
  then have d: "distinct (subscribers s)" by (simp add: wf_room_def)
  have a: "c \<notin> set (subscribers s) \<longrightarrow> unsubscribe c s = s"
    by (simp add: unsubscribe_def remove_first_absent)
  have b: "c \<notin> set (subscribers (unsubscribe c s))"
    using remove_first_gone [OF d, of c] by (simp add: unsubscribe_def)
  have "remove_first c (remove_first c (subscribers s)) = remove_first c (subscribers s)"
    using remove_first_gone [OF d, of c] by (rule remove_first_absent)
  then have c: "unsubscribe c (unsubscribe c s) = unsubscribe c s"
    by (simp add: unsubscribe_def)
  from a b c Cancel_twice [OF d] show ?thesis by simp
qed

text \<open>The theorem at a concrete execution that satisfies its hypotheses.\<close>

theorem unsubscribe_idempotent_witness:
  "case run [Sub, Sub, Pub (ev 0), Unsub 0, Drain 0] Chatroom_init of
     None \<Rightarrow> False
   | Some s \<Rightarrow>
       0 \<notin> set (subscribers s) \<and> unsubscribe 0 s = s \<and> Cancel 0 (Cancel 0 s) = Cancel 0 s \<and>
       7 \<notin> set (subscribers s) \<and> unsubscribe 7 s = s"
proof -
  have "case run [Sub, Sub, Pub (ev 0), Unsub 0, Drain 0] Chatroom_init of
     None \<Rightarrow> False
   | Some s \<Rightarrow> subscribers s = [1]"
    by code_simp
  then obtain s where r: "run [Sub, Sub, Pub (ev 0), Unsub 0, Drain 0] Chatroom_init = Some s"
    and f: "subscribers s = [1]"
    by (auto split: option.splits)
  from unsubscribe_idempotent [OF r, of 0] unsubscribe_idempotent [OF r, of 7] r f
  show ?thesis by simp
qed

text \<open>
  Claim C9. Once the actor has taken the unsubscribe of an existing handle, no later
  execution, whatever it publishes, sends anything on that handle: what was delivered on
  it stays what it was at the removal, no suspended fan-out owes it an event, and it
  never returns to the subscriber list.
\<close>

theorem no_delivery_after_removal:
  assumes "run pre Chatroom_init = Some s1"
    and "chans s1 c \<noteq> None"
    and "step (Unsub c) s1 = Some s2"
    and "run post s2 = Some s3"
  shows "delivered s3 c = delivered s1 c \<and> owed s3 c = [] \<and> c \<notin> set (subscribers s3)"
proof -
  have wf1: "wf_room s1" using wf_run [OF wf_init assms(1)] .
  have wf2: "wf_room s2" using wf_step [OF wf1 assms(3)] .
  from assms(3) have s2: "s2 = unsubscribe c s1" by (auto split: if_splits)
  from wf1 have "distinct (subscribers s1)" by (simp add: wf_room_def)
  from remove_first_gone [OF this, of c] s2 have out: "c \<notin> set (subscribers s2)"
    by (simp add: unsubscribe_def)
  from wf1 assms(2) s2 have al: "c < next_chan s2" by (auto simp: wf_room_def unsubscribe_def)
  from s2 have same: "delivered s2 c = delivered s1 c" by (simp add: unsubscribe_def delivered_def)
  from stranger_run [OF assms(4) wf2 al out] have
    k: "c \<notin> set (subscribers s3)" "delivered s3 c = delivered s2 c" "wf_room s3" by blast+
  from owed_stranger [OF k(3) k(1)] k same show ?thesis by simp
qed

text \<open>The theorem at a concrete execution that satisfies its hypotheses.\<close>

theorem no_delivery_after_removal_witness:
  "case run [Sub, Sub, Pub (ev 0), Recv 0] Chatroom_init of
     None \<Rightarrow> False
   | Some s1 \<Rightarrow>
       (case step (Unsub 0) s1 of
          None \<Rightarrow> False
        | Some s2 \<Rightarrow>
            (case run [Pub (ev 1), Sub, Pub (ev 2), Recv 1] s2 of
               None \<Rightarrow> False
             | Some s3 \<Rightarrow>
                 chans s1 0 \<noteq> None \<and> delivered s1 0 = [ev 0] \<and> delivered s3 0 = [ev 0] \<and>
                 delivered s3 1 = [ev 0, ev 1, ev 2] \<and> owed s3 0 = [] \<and>
                 0 \<notin> set (subscribers s3)))"
proof -
  let ?pre = "[Sub, Sub, Pub (ev 0), Recv 0]"
  let ?post = "[Pub (ev 1), Sub, Pub (ev 2), Recv 1]"
  have "case run ?pre Chatroom_init of
     None \<Rightarrow> False
   | Some s1 \<Rightarrow>
       (case step (Unsub 0) s1 of
          None \<Rightarrow> False
        | Some s2 \<Rightarrow>
            (case run ?post s2 of
               None \<Rightarrow> False
             | Some s3 \<Rightarrow> (case chans s1 0 of None \<Rightarrow> False | Some ch \<Rightarrow> True) \<and>
                 delivered s1 0 = [ev 0] \<and> delivered s3 1 = [ev 0, ev 1, ev 2]))"
    by code_simp
  then obtain s1 s2 s3 where r: "run ?pre Chatroom_init = Some s1"
     "step (Unsub 0) s1 = Some s2" "run ?post s2 = Some s3"
     and f: "chans s1 0 \<noteq> None" "delivered s1 0 = [ev 0]" "delivered s3 1 = [ev 0, ev 1, ev 2]"
    by (auto split: option.splits)
  from no_delivery_after_removal [OF r(1) f(1) r(2,3)] r f show ?thesis by simp
qed


section \<open>The claims about the publish step and the handlers\<close>

lemma payload_fields_None: "payload_fields src = None \<longleftrightarrow> length (Split src CHR ''|'') < 3"
  by (auto simp: payload_fields_def index_def Let_def)

lemma Split_length: "length (Split src d) = Suc (length (filter (\<lambda>c. c = d) src))"
  by (induction src) (auto split: list.splits)

text \<open>
  Claim C4, as the code has it. A publish taken at the \<open>select\<close> first sends the event
  to the subscribers in list order, up to the first one whose buffer is full, and only
  when the list is exhausted appends the event to the archive (evicting the oldest at
  capacity). Each served subscriber gets exactly the event appended; the others and all
  other channels are untouched. When no buffer is full the resulting state is the one
  the specification's order (archive first, then send) gives; when one is full the
  archive is still unchanged while the actor is suspended.
\<close>

theorem publish_sends_then_archives:
  assumes "run as Chatroom_init = Some s" and "pending s = None"
  shows "\<exists>h r. fanout e (subscribers s) (chans s) = (h, r) \<and>
           (\<exists>p. subscribers s = p @ r) \<and>
           chans (publish e s) = h \<and>
           (\<forall>c \<in> set (subscribers s). c \<notin> set r \<longrightarrow>
              delivered (publish e s) c = delivered s c @ [e]) \<and>
           (\<forall>c. c \<in> set r \<or> c \<notin> set (subscribers s) \<longrightarrow>
              chans (publish e s) c = chans s c) \<and>
           (r = [] \<longrightarrow>
              archive (publish e s) = archive_push e (archive s) \<and>
              pending (publish e s) = None \<and> publish e s = publish_spec e s) \<and>
           (r \<noteq> [] \<longrightarrow>
              archive (publish e s) = archive s \<and> pending (publish e s) = Some (e, r))"
proof -
  have wf: "wf_room s" using wf_run [OF wf_init assms(1)] .
  then have d: "distinct (subscribers s)" by (simp add: wf_room_def)
  obtain h r where f: "fanout e (subscribers s) (chans s) = (h, r)"
    by (cases "fanout e (subscribers s) (chans s)")
  from fanout_suffix [OF f] have suf: "\<exists>p. subscribers s = p @ r" .
  have ch: "chans (publish e s) = h" using f by (simp add: publish_def deliver_chans)
  have served: "\<forall>c \<in> set (subscribers s). c \<notin> set r \<longrightarrow>
      delivered (publish e s) c = delivered s c @ [e]"
  proof (intro ballI impI)
    fix c assume c: "c \<in> set (subscribers s)" "c \<notin> set r"
    from fanout_served [OF d f c] obtain x where
      "chans s c = Some x" "h c = Some (x\<lparr>buf := buf x @ [e]\<rparr>)" by auto
    with ch show "delivered (publish e s) c = delivered s c @ [e]"
      by (simp add: delivered_def)
  qed
  have others: "\<forall>c. c \<in> set r \<or> c \<notin> set (subscribers s) \<longrightarrow>
      chans (publish e s) c = chans s c"
  proof (intro allI impI)
    fix c assume "c \<in> set r \<or> c \<notin> set (subscribers s)"
    then show "chans (publish e s) c = chans s c"
    proof
      assume "c \<in> set r"
      from fanout_waiting [OF d f this] ch show ?thesis by simp
    next
      assume "c \<notin> set (subscribers s)"
      from fanout_other [OF this, of e "chans s"] f ch show ?thesis by simp
    qed
  qed
  have fin: "r = [] \<longrightarrow>
      archive (publish e s) = archive_push e (archive s) \<and>
      pending (publish e s) = None \<and> publish e s = publish_spec e s"
    using f by (simp add: publish_def publish_spec_def deliver_def Let_def)
  have blocked: "r \<noteq> [] \<longrightarrow>
      archive (publish e s) = archive s \<and> pending (publish e s) = Some (e, r)"
    using f by (cases r) (simp_all add: publish_def deliver_def)
  from f suf ch served others fin blocked show ?thesis by blast
qed

text \<open>The theorem at a concrete execution that satisfies its hypotheses.\<close>

theorem publish_sends_then_archives_witness:
  "case run [Sub, Pub (ev 0), Sub] Chatroom_init of
     None \<Rightarrow> False
   | Some s \<Rightarrow>
       pending s = None \<and>
       fanout (ev 1) (subscribers s) (chans s) = (chans (publish (ev 1) s), []) \<and>
       archive (publish (ev 1) s) = archive_push (ev 1) (archive s) \<and>
       publish (ev 1) s = publish_spec (ev 1) s \<and>
       delivered (publish (ev 1) s) 0 = delivered s 0 @ [ev 1] \<and>
       delivered (publish (ev 1) s) 1 = delivered s 1 @ [ev 1]"
proof -
  have "case run [Sub, Pub (ev 0), Sub] Chatroom_init of
     None \<Rightarrow> False
   | Some s \<Rightarrow> pending s = None \<and> subscribers s = [0, 1] \<and>
       snd (fanout (ev 1) (subscribers s) (chans s)) = []"
    by code_simp
  then obtain s where r: "run [Sub, Pub (ev 0), Sub] Chatroom_init = Some s"
    and f: "pending s = None" "subscribers s = [0, 1]"
       "snd (fanout (ev 1) (subscribers s) (chans s)) = []"
    by (auto split: option.splits)
  from publish_sends_then_archives [OF r f(1), of "ev 1"] r f show ?thesis by auto
qed

text \<open>
  Claim C4 as stated fails: with one subscriber whose buffer holds 10 events, the
  eleventh publish is suspended in its send and the archive does not hold the event,
  where the specification's order has already archived it.
\<close>

theorem publish_sends_then_archives_counterexample:
  "pending (fold publish (map ev [0..<10]) (snd (subscribe Chatroom_init))) = None \<and>
   archive (publish (ev 10) (fold publish (map ev [0..<10]) (snd (subscribe Chatroom_init))))
     = map ev [0..<10] \<and>
   pending (publish (ev 10) (fold publish (map ev [0..<10]) (snd (subscribe Chatroom_init))))
     = Some (ev 10, [0]) \<and>
   archive (publish_spec (ev 10) (fold publish (map ev [0..<10]) (snd (subscribe Chatroom_init))))
     = map ev [0..<11]"
  by code_simp

text \<open>
  Claim C6. A register or login payload that splits into fewer than 3 fields makes the
  handler panic at the indexing of the fields; with 3 fields or more neither handler
  panics.
\<close>

theorem short_payload_panics:
  "(length (Split src CHR ''|'') < 3 \<longrightarrow>
      register src chatRooms = Panics \<and> login src now chatRooms = Panics) \<and>
   (3 \<le> length (Split src CHR ''|'') \<longrightarrow>
      register src chatRooms \<noteq> Panics \<and> login src now chatRooms \<noteq> Panics)"
proof (cases "payload_fields src")
  case None
  then have "length (Split src CHR ''|'') < 3" by (simp add: payload_fields_None)
  with None show ?thesis by (simp add: register_def login_def)
next
  case (Some t)
  then have "\<not> length (Split src CHR ''|'') < 3"
    using payload_fields_None [of src] by simp
  moreover obtain r u p where "t = (r, u, p)" by (cases t)
  ultimately show ?thesis using Some
    by (auto simp: register_def login_def Let_def split: option.splits prod.splits)
qed

text \<open>The theorem at a concrete execution that satisfies its hypotheses.\<close>

theorem short_payload_panics_witness:
  "length (Split ''R1|alice'' CHR ''|'') < 3 \<and>
   register ''R1|alice'' demo_registry = Panics \<and>
   login ''R1|alice'' 0 demo_registry = Panics \<and>
   3 \<le> length (Split ''R1|alice|pw1'' CHR ''|'') \<and>
   register ''R1|alice|pw1'' demo_registry \<noteq> Panics \<and>
   login ''R1|alice|pw1'' 0 demo_registry \<noteq> Panics"
  using short_payload_panics [of "''R1|alice''" demo_registry 0]
    short_payload_panics [of "''R1|alice|pw1''" demo_registry 0]
  by simp

text \<open>
  Claim C7. A login that fails, because the room does not exist, the user is not in its
  user list, or the password differs, returns with exactly one "error" value emitted on
  the caller's socket, no subscription, and the registry (every room's archive,
  subscribers and user list) as it was: nothing is published.
\<close>

theorem failed_login_only_reports:
  assumes "payload_fields src = Some (roomID, userID, userPw)"
  shows "(chatRooms roomID = None \<longrightarrow>
            login src now chatRooms =
              Returns (chatRooms,
                [(''error'', Msg (''Chat room with room id '' @ roomID @ '' doesn't exist''))],
                None)) \<and>
         (\<forall>v. chatRooms roomID = Some v \<and> userList v userID = None \<longrightarrow>
            login src now chatRooms =
              Returns (chatRooms,
                [(''error'', Msg ''You're not found in the user list. Please register first'')],
                None)) \<and>
         (\<forall>v pw. chatRooms roomID = Some v \<and> userList v userID = Some pw \<and> pw \<noteq> userPw \<longrightarrow>
            login src now chatRooms =
              Returns (chatRooms, [(''error'', Msg ''Password is incorrect!'')], None))"
  using assms by (simp add: login_def)

text \<open>The theorem at a concrete execution that satisfies its hypotheses.\<close>

theorem failed_login_only_reports_witness:
  "login ''R2|alice|pw1'' 5 demo_registry =
     Returns (demo_registry,
       [(''error'', Msg ''Chat room with room id R2 doesn't exist'')], None) \<and>
   login ''R1|bob|x'' 5 demo_registry =
     Returns (demo_registry,
       [(''error'', Msg ''You're not found in the user list. Please register first'')], None) \<and>
   login ''R1|alice|wrongpw'' 5 demo_registry =
     Returns (demo_registry, [(''error'', Msg ''Password is incorrect!'')], None)"
proof -
  have p: "payload_fields ''R2|alice|pw1'' = Some (''R2'', ''alice'', ''pw1'')"
      "payload_fields ''R1|bob|x'' = Some (''R1'', ''bob'', ''x'')"
      "payload_fields ''R1|alice|wrongpw'' = Some (''R1'', ''alice'', ''wrongpw'')"
    by (simp_all add: payload_fields_def index_def Let_def)
  from failed_login_only_reports [OF p(1), of demo_registry 5]
    failed_login_only_reports [OF p(2), of demo_registry 5]
    failed_login_only_reports [OF p(3), of demo_registry 5]
  show ?thesis by (simp add: demo_registry_def)
qed

text \<open>
  Claim C10. Registering in an existing room stores the supplied password for the user,
  replacing any earlier one, and leaves the other users' passwords and the room's actor
  (archive, subscribers) as they were. Afterwards a login of that user with another
  password gets the password error, and a login with the registered password subscribes
  and publishes the join event (or waits for the actor while it is suspended).
\<close>

theorem register_last_wins:
  assumes "payload_fields src = Some (roomID, userID, userPw)"
    and "chatRooms roomID = Some v"
  shows "\<exists>v'. register src chatRooms = Returns (chatRooms(roomID \<mapsto> v')) \<and>
           userList v' userID = Some userPw \<and>
           (\<forall>u. u \<noteq> userID \<longrightarrow> userList v' u = userList v u) \<and>
           worker v' = worker v \<and>
           (\<forall>src' pw' now. payload_fields src' = Some (roomID, userID, pw') \<longrightarrow>
              (pw' \<noteq> userPw \<longrightarrow>
                 login src' now (chatRooms(roomID \<mapsto> v')) =
                   Returns (chatRooms(roomID \<mapsto> v'),
                     [(''error'', Msg ''Password is incorrect!'')], None)) \<and>
              (pw' = userPw \<longrightarrow>
                 login src' now (chatRooms(roomID \<mapsto> v')) =
                   (if pending (worker v) \<noteq> None then Waits
                    else Returns
                      (chatRooms(roomID \<mapsto>
                         v'\<lparr>worker := Join now userID (snd (subscribe (worker v)))\<rparr>),
                       map (\<lambda>event. (''event'', Evt event)) (archive (worker v)),
                       Some (fst (subscribe (worker v)))))))"
proof -
  let ?v' = "v\<lparr>userList := (userList v)(userID \<mapsto> userPw)\<rparr>"
  have r: "register src chatRooms = Returns (chatRooms(roomID \<mapsto> ?v'))"
    using assms by (simp add: register_def)
  have a: "Archive (fst (subscribe (worker v))) = archive (worker v)"
    by (simp add: subscribe_def Let_def copy_archive_id)
  have l: "\<forall>src' pw' now. payload_fields src' = Some (roomID, userID, pw') \<longrightarrow>
              (pw' \<noteq> userPw \<longrightarrow>
                 login src' now (chatRooms(roomID \<mapsto> ?v')) =
                   Returns (chatRooms(roomID \<mapsto> ?v'),
                     [(''error'', Msg ''Password is incorrect!'')], None)) \<and>
              (pw' = userPw \<longrightarrow>
                 login src' now (chatRooms(roomID \<mapsto> ?v')) =
                   (if pending (worker v) \<noteq> None then Waits
                    else Returns
                      (chatRooms(roomID \<mapsto>
                         ?v'\<lparr>worker := Join now userID (snd (subscribe (worker v)))\<rparr>),
                       map (\<lambda>event. (''event'', Evt event)) (archive (worker v)),
                       Some (fst (subscribe (worker v))))))"
    using a by (auto simp: login_def split: prod.splits)
  show ?thesis
    by (rule exI [of _ ?v']) (use r l in simp)
qed

text \<open>The theorem at a concrete execution that satisfies its hypotheses.\<close>

theorem register_last_wins_witness:
  "payload_fields ''R1|alice|pw2'' = Some (''R1'', ''alice'', ''pw2'') \<and>
   (\<exists>v'. register ''R1|alice|pw2'' demo_registry = Returns (demo_registry(''R1'' \<mapsto> v')) \<and>
      userList v' ''alice'' = Some ''pw2'' \<and>
      worker v' = Chatroom_init \<and>
      login ''R1|alice|pw1'' 7 (demo_registry(''R1'' \<mapsto> v')) =
        Returns (demo_registry(''R1'' \<mapsto> v'),
          [(''error'', Msg ''Password is incorrect!'')], None) \<and>
      login ''R1|alice|pw2'' 7 (demo_registry(''R1'' \<mapsto> v')) =
        Returns (demo_registry(''R1'' \<mapsto>
            v'\<lparr>worker := Join 7 ''alice'' (snd (subscribe Chatroom_init))\<rparr>),
          [], Some (fst (subscribe Chatroom_init))))"
proof -
  let ?v = "\<lparr>userList = (\<lambda>u. None)(''alice'' \<mapsto> ''pw1''), worker = Chatroom_init\<rparr>"
  have p: "payload_fields ''R1|alice|pw2'' = Some (''R1'', ''alice'', ''pw2'')"
      "payload_fields ''R1|alice|pw1'' = Some (''R1'', ''alice'', ''pw1'')"
    by (simp_all add: payload_fields_def index_def Let_def)
  have d: "demo_registry ''R1'' = Some ?v" by (simp add: demo_registry_def)
  from register_last_wins
    [of "''R1|alice|pw2''" "''R1''" "''alice''" "''pw2''" demo_registry ?v, OF p(1) d]
  obtain v' where
    k: "register ''R1|alice|pw2'' demo_registry = Returns (demo_registry(''R1'' \<mapsto> v'))"
       "userList v' ''alice'' = Some ''pw2''"
       "worker v' = worker ?v"
       "\<forall>src' pw' now. payload_fields src' = Some (''R1'', ''alice'', pw') \<longrightarrow>
              (pw' \<noteq> ''pw2'' \<longrightarrow>
                 login src' now (demo_registry(''R1'' \<mapsto> v')) =
                   Returns (demo_registry(''R1'' \<mapsto> v'),
                     [(''error'', Msg ''Password is incorrect!'')], None)) \<and>
              (pw' = ''pw2'' \<longrightarrow>
                 login src' now (demo_registry(''R1'' \<mapsto> v')) =
                   (if pending (worker ?v) \<noteq> None then Waits
                    else Returns
                      (demo_registry(''R1'' \<mapsto>
                         v'\<lparr>worker := Join now ''alice'' (snd (subscribe (worker ?v)))\<rparr>),
                       map (\<lambda>event. (''event'', Evt event)) (archive (worker ?v)),
                       Some (fst (subscribe (worker ?v))))))"
    by (elim exE conjE)
  from k(4) p(2) have l1: "login ''R1|alice|pw1'' 7 (demo_registry(''R1'' \<mapsto> v')) =
        Returns (demo_registry(''R1'' \<mapsto> v'),
          [(''error'', Msg ''Password is incorrect!'')], None)"
    by simp
  from k(4) p(1) have l2: "login ''R1|alice|pw2'' 7 (demo_registry(''R1'' \<mapsto> v')) =
        Returns (demo_registry(''R1'' \<mapsto>
            v'\<lparr>worker := Join 7 ''alice'' (snd (subscribe Chatroom_init))\<rparr>),
          [], Some (fst (subscribe Chatroom_init)))"
    by (simp add: Chatroom_init_def)
  from p(1) k(1,2,3) l1 l2 show ?thesis by auto
qed

end
